theory Spec2Isabelle
  imports Complex_Main "HOL-Library.Word" "HOL-Library.AList"
    "HOL-Library.Char_ord" "HOL-Library.List_Lexorder"
begin

section \<open>Data model\<close>

text \<open>
  The wrapper \<^verbatim>\<open>mat.pyx\<close> works on the nodes and mutations of the tree engine.
  A mutation carries a position and three base codes; \<^verbatim>\<open>complement\<close> takes the
  code as \<^verbatim>\<open>int8_t\<close>, so the codes are 8-bit words. The position is a field of
  the C++ struct of the tree engine, a C \<^verbatim>\<open>int\<close> of 32 bits read as a signed number
  (the declaration of the field is not part of the sources).
\<close>

record Mutation =
  position :: "32 word"
  ref_nuc :: "8 word"
  par_nuc :: "8 word"
  mut_nuc :: "8 word"

text \<open>
  A node owns its identifier, the mutations of the edge above it, and its children in
  order. The tree holds a root pointer, which is null in the empty tree.
\<close>

datatype Node = Node (identifier': string) (mutations: "Mutation list") (children: "Node list")

record Tree =
  root :: "Node option"

datatype error = IndexError | KeyError | ZeroDivisionError | AssertionError | OverflowError

section \<open>The tree engine, as the wrapper consumes it\<close>

text \<open>
  Modelled from the spec: \<^verbatim>\<open>Node.is_leaf\<close> of the tree engine, "true iff children
  is empty" (section 3).
\<close>

definition is_leaf :: "Node \<Rightarrow> bool" where
  "is_leaf n = (children n = [])"

text \<open>
  Modelled from the spec: \<^verbatim>\<open>Tree.depth_first_expansion\<close> of the tree engine,
  "ordered sequence of Node, pre-order" from the start node (section 6). A null start
  node has no expansion.
\<close>

fun dfe_node :: "Node \<Rightarrow> Node list" where
  "dfe_node (Node i ms cs) = Node i ms cs # concat (map dfe_node cs)"

definition depth_first_expansion :: "Node option \<Rightarrow> Node list" where
  "depth_first_expansion start = (case start of None \<Rightarrow> [] | Some n \<Rightarrow> dfe_node n)"

text \<open>
  Modelled from the spec: \<^verbatim>\<open>Tree.get_leaves_ids\<close> of the tree engine, the
  identifiers of all leaves (section 6), here in the order of the expansion. The
  wrapper only ever passes the empty name, which stands for the root.
\<close>

definition get_leaves_ids :: "Tree \<Rightarrow> string list" where
  "get_leaves_ids t = map identifier' (filter is_leaf (depth_first_expansion (root t)))"

text \<open>
  Modelled from the spec: \<^verbatim>\<open>Tree.rsearch\<close> of the tree engine, the path from the
  named node to the root, "sample\<rightarrow>root order" (section 6); \<open>include_self\<close> keeps the
  named node at its head. \<open>path_to\<close> is the same path from the root down, empty when
  no node carries the name.
\<close>

fun path_to :: "string \<Rightarrow> Node \<Rightarrow> Node list" where
  "path_to nid (Node i ms cs) =
     (if i = nid then [Node i ms cs]
      else (case filter (\<lambda>p. p \<noteq> []) (map (path_to nid) cs) of
              [] \<Rightarrow> []
            | p # _ \<Rightarrow> Node i ms cs # p))"

definition rsearch :: "Tree \<Rightarrow> string \<Rightarrow> bool \<Rightarrow> Node list" where
  "rsearch t nid include_self =
     (case root t of
        None \<Rightarrow> []
      | Some r \<Rightarrow> (let p = rev (path_to nid r) in if include_self then p else tl p))"

text \<open>Decimal digits of a number, for identifiers and mutation strings.\<close>

fun show_nat :: "nat \<Rightarrow> string" where
  "show_nat n =
     (if n < 10 then [''0123456789'' ! n]
      else show_nat (n div 10) @ [''0123456789'' ! (n mod 10)])"

definition show_int :: "int \<Rightarrow> string" where
  "show_int i = (if i < 0 then CHR ''-'' # show_nat (nat (- i)) else show_nat (nat i))"

text \<open>
  Modelled from the spec: \<^verbatim>\<open>Mutation.get_string\<close> of the tree engine, the canonical
  string form \<^verbatim>\<open><ref_base><position><mutant_base>\<close> (section 3). The four bases are
  single-bit codes; \<^verbatim>\<open>complement\<close> below pairs 1 with 8 and 2 with 4, so A, C, G, T
  are 1, 2, 4, 8, and any other code prints as the placeholder N.
\<close>

definition get_nuc :: "8 word \<Rightarrow> char" where
  "get_nuc c =
     (if c = 1 then CHR ''A'' else if c = 2 then CHR ''C''
      else if c = 4 then CHR ''G'' else if c = 8 then CHR ''T'' else CHR ''N'')"

definition get_string :: "Mutation \<Rightarrow> string" where
  "get_string m = get_nuc (ref_nuc m) # show_int (sint (position m)) @ [get_nuc (mut_nuc m)]"

text \<open>
  Modelled from the spec: \<^verbatim>\<open>resolve_all_polytomies\<close> of the tree engine, which
  returns the tree in "strictly bifurcating form" (section 6). A polytomy is a node
  with more than two children: it keeps its first child, and the others hang on a
  ladder of new nodes without mutations, named after the node. A node with at most two
  children is no polytomy and keeps its children. The specification says of the result
  only that it is in bifurcating form; the shape of the ladder and the names of the new
  nodes are choices of this model.
\<close>

fun ladder :: "string \<Rightarrow> nat \<Rightarrow> Node list \<Rightarrow> Node list" where
  "ladder pid k (a # b # c # rest) =
     [a, Node (pid @ ''_polytomy_'' @ show_nat k) [] (ladder pid (Suc k) (b # c # rest))]"
| "ladder pid k cs = cs"

fun resolve_node :: "Node \<Rightarrow> Node" where
  "resolve_node (Node i ms cs) = Node i ms (ladder i 0 (map resolve_node cs))"

definition resolve_all_polytomies :: "Tree \<Rightarrow> Tree" where
  "resolve_all_polytomies t = t\<lparr>root := map_option resolve_node (root t)\<rparr>"

section \<open>Mutation codec\<close>

text \<open>\<^verbatim>\<open>complement\<close>: A and T, C and G change places; any other code is returned as it is.\<close>

definition complement :: "8 word \<Rightarrow> 8 word" where
  "complement inp =
     (if inp = 1 then 8
      else if inp = 8 then 1
      else if inp = 2 then 4
      else if inp = 4 then 2
      else inp)"

section \<open>Diff engine\<close>

text \<open>
  \<^verbatim>\<open>oppo = mname[-1] + mname[1:-1] + mname[0]\<close>. Indexing an empty string raises
  IndexError; a string of one symbol gives that symbol twice (the slice is empty).
\<close>

definition oppo_of :: "string \<Rightarrow> error + string" where
  "oppo_of mname =
     (if mname = [] then Inl IndexError
      else Inr (last mname # butlast (tl mname) @ [hd mname]))"

text \<open>The inner loop of \<^verbatim>\<open>accumulate_mutations\<close>, over the mutation strings of one node.\<close>

fun accumulate_node :: "string list \<Rightarrow> string set \<Rightarrow> error + string set" where
  "accumulate_node [] allm = Inr allm"
| "accumulate_node (mname # ms) allm =
     (case oppo_of mname of
        Inl e \<Rightarrow> Inl e
      | Inr oppo \<Rightarrow>
          if oppo \<in> allm then accumulate_node ms (allm - {oppo})
          else accumulate_node ms (insert mname allm))"

text \<open>The outer loop, over the nodes of the path from the root to the sample.\<close>

fun accumulate_path :: "string list list \<Rightarrow> string set \<Rightarrow> error + string set" where
  "accumulate_path [] allm = Inr allm"
| "accumulate_path (ms # path) allm =
     (case accumulate_node ms allm of
        Inl e \<Rightarrow> Inl e
      | Inr allm' \<Rightarrow> accumulate_path path allm')"

text \<open>
  \<^verbatim>\<open>accumulate_mutations\<close>: the ancestors come from \<^verbatim>\<open>rsearch(sample, True)\<close> and
  are read from the last to the first, that is from the root to the sample.
\<close>

definition accumulate_mutations :: "Tree \<Rightarrow> string \<Rightarrow> error + string set" where
  "accumulate_mutations t sample =
     (let ancestors = rsearch t sample True
      in accumulate_path (map (\<lambda>n. map get_string (mutations n)) (rev ancestors)) {})"

section \<open>Haplotype aggregator\<close>

text \<open>
  The dictionary \<^verbatim>\<open>divtrack\<close> is an association list in insertion order, the order
  in which Python iterates a dictionary. The key of a sample is
  \<^verbatim>\<open>tuple(sorted(smset))\<close>. One round of the loop of \<^verbatim>\<open>count_haplotypes\<close>:
  a key that is not in the dictionary enters it with 0, then its count goes up by one
  (reading a key that is missing raises KeyError).
\<close>

type_synonym divtrack = "(string list \<times> int) list"

definition dict_get :: "('k \<times> 'v) list \<Rightarrow> 'k \<Rightarrow> error + 'v" where
  "dict_get d k = (case map_of d k of None \<Rightarrow> Inl KeyError | Some v \<Rightarrow> Inr v)"

definition count_sample :: "divtrack \<Rightarrow> string set \<Rightarrow> error + divtrack" where
  "count_sample divtrack smset =
     (let smkey = sorted_list_of_set smset;
          divtrack1 = (if smkey \<notin> fst ` set divtrack then AList.update smkey 0 divtrack
                       else divtrack)
      in case dict_get divtrack1 smkey of
           Inl e \<Rightarrow> Inl e
         | Inr c \<Rightarrow> Inr (AList.update smkey (c + 1) divtrack1))"

fun count_loop :: "Tree \<Rightarrow> string list \<Rightarrow> divtrack \<Rightarrow> error + divtrack" where
  "count_loop t [] divtrack = Inr divtrack"
| "count_loop t (sample # samples) divtrack =
     (case accumulate_mutations t sample of
        Inl e \<Rightarrow> Inl e
      | Inr smset \<Rightarrow>
          (case count_sample divtrack smset of
             Inl e \<Rightarrow> Inl e
           | Inr divtrack' \<Rightarrow> count_loop t samples divtrack'))"

definition count_haplotypes :: "Tree \<Rightarrow> error + divtrack" where
  "count_haplotypes t = count_loop t (get_leaves_ids t) []"

section \<open>Diversity estimator\<close>

text \<open>
  \<^verbatim>\<open>count_differences\<close>, the local function of \<^verbatim>\<open>compute_nucleotide_diversity\<close>.
\<close>

definition count_differences :: "string list \<Rightarrow> string list \<Rightarrow> int" where
  "count_differences l1 l2 =
     (let sl2 = set l2;
          total_matched = int (length (filter (\<lambda>element. element \<in> sl2) l1))
      in (int (length l1) - total_matched) + (int (length l2) - total_matched))"

text \<open>
  The division \<^verbatim>\<open>/\<close> of two Python integers: it raises ZeroDivisionError on a zero
  divisor. Its quotient, and the products and sums built from it, are floating-point
  numbers in Python; they are exact rationals here.
\<close>

definition truediv :: "int \<Rightarrow> int \<Rightarrow> error + rat" where
  "truediv a b = (if b = 0 then Inl ZeroDivisionError else Inr (of_int a / of_int b))"

text \<open>The inner loop over \<^verbatim>\<open>g2\<close>, for one \<^verbatim>\<open>g1\<close> and its frequency.\<close>

fun diversity_inner ::
  "divtrack \<Rightarrow> int \<Rightarrow> string list \<Rightarrow> rat \<Rightarrow> string list list \<Rightarrow> rat \<Rightarrow> error + rat" where
  "diversity_inner divtrack total_seq g1 g1_freq [] dv = Inr dv"
| "diversity_inner divtrack total_seq g1 g1_freq (g2 # keys) dv =
     (if g1 \<noteq> g2 then
        (case dict_get divtrack g2 of
           Inl e \<Rightarrow> Inl e
         | Inr c2 \<Rightarrow>
             (case truediv c2 total_seq of
                Inl e \<Rightarrow> Inl e
              | Inr g2_freq \<Rightarrow>
                  (let pair_diff = count_differences g1 g2
                   in diversity_inner divtrack total_seq g1 g1_freq keys
                        (dv + of_int pair_diff * g1_freq * g2_freq))))
      else diversity_inner divtrack total_seq g1 g1_freq keys dv)"

text \<open>The outer loop over \<^verbatim>\<open>g1\<close>.\<close>

fun diversity_outer :: "divtrack \<Rightarrow> int \<Rightarrow> string list list \<Rightarrow> rat \<Rightarrow> error + rat" where
  "diversity_outer divtrack total_seq [] dv = Inr dv"
| "diversity_outer divtrack total_seq (g1 # keys) dv =
     (case dict_get divtrack g1 of
        Inl e \<Rightarrow> Inl e
      | Inr c1 \<Rightarrow>
          (case truediv c1 total_seq of
             Inl e \<Rightarrow> Inl e
           | Inr g1_freq \<Rightarrow>
               (case diversity_inner divtrack total_seq g1 g1_freq (map fst divtrack) dv of
                  Inl e \<Rightarrow> Inl e
                | Inr dv' \<Rightarrow> diversity_outer divtrack total_seq keys dv')))"

definition compute_nucleotide_diversity :: "Tree \<Rightarrow> error + rat" where
  "compute_nucleotide_diversity t =
     (case count_haplotypes t of
        Inl e \<Rightarrow> Inl e
      | Inr divtrack \<Rightarrow>
          (let total_seq = sum_list (map snd divtrack)
           in case diversity_outer divtrack total_seq (map fst divtrack) 0 of
                Inl e \<Rightarrow> Inl e
              | Inr dv \<Rightarrow>
                  (case truediv total_seq (total_seq - 1) of
                     Inl e \<Rightarrow> Inl e
                   | Inr q \<Rightarrow> Inr (dv * q))))"

section \<open>Parsimony solver\<close>

text \<open>
  The loop of \<^verbatim>\<open>simple_parsimony\<close> over the nodes, already in the order in which it
  reads them. An inner node must have two children (the \<^verbatim>\<open>assert\<close>); the state
  sets of both are read from the dictionary (KeyError when one is missing).
\<close>

fun parsimony_loop ::
  "Node list \<Rightarrow> (string \<rightharpoonup> 's set) \<Rightarrow> error + (string \<rightharpoonup> 's set)" where
  "parsimony_loop [] node_assignment_set = Inr node_assignment_set"
| "parsimony_loop (cnode # nodes) node_assignment_set =
     (if \<not> is_leaf cnode then
        (let chn = children cnode
         in if length chn \<noteq> 2 then Inl AssertionError
            else
              (case node_assignment_set (identifier' (chn ! 0)) of
                 None \<Rightarrow> Inl KeyError
               | Some left \<Rightarrow>
                   (case node_assignment_set (identifier' (chn ! 1)) of
                      None \<Rightarrow> Inl KeyError
                    | Some right \<Rightarrow>
                        (let state = left \<inter> right;
                             state = (if state = {} then left \<union> right else state)
                         in parsimony_loop nodes
                              (node_assignment_set(identifier' cnode \<mapsto> state))))))
      else parsimony_loop nodes node_assignment_set)"

text \<open>
  \<^verbatim>\<open>simple_parsimony\<close> first stores the resolved tree in the object
  (\<^verbatim>\<open>self.t = resolve_all_polytomies(self.t)\<close>), then walks the expansion of the new
  root from its last node to its first. The model returns the tree the object holds
  afterwards together with the result of the call.
\<close>

definition simple_parsimony ::
  "Tree \<Rightarrow> (string \<rightharpoonup> 's) \<Rightarrow> Tree \<times> (error + (string \<rightharpoonup> 's set))" where
  "simple_parsimony t leaf_assignments =
     (let t' = resolve_all_polytomies t;
          node_assignment_set = (\<lambda>l. map_option (\<lambda>v. {v}) (leaf_assignments l));
          nodes = depth_first_expansion (root t')
      in (t', parsimony_loop (rev nodes) node_assignment_set))"

section \<open>Strand reverser\<close>

text \<open>
  The assignment of a Python integer to a C \<^verbatim>\<open>int\<close>: the conversion checks the range
  and raises OverflowError when the value does not fit.
\<close>

definition to_c_int :: "int \<Rightarrow> error + 32 word" where
  "to_c_int v = (if - (2 ^ 31) \<le> v \<and> v < 2 ^ 31 then Inr (word_of_int v) else Inl OverflowError)"

text \<open>
  The replacement of one mutation in the loop body of \<^verbatim>\<open>reverse_strand\<close>: a copy
  with the three bases complemented and the position
  \<^verbatim>\<open>genome_size - mutation.position - 1\<close>. The argument \<^verbatim>\<open>genome_size\<close> is an
  untyped Python object, so the difference is a Python integer of any size, and storing
  it in the field is the checked conversion.
\<close>

definition reverse_mutation :: "int \<Rightarrow> Mutation \<Rightarrow> error + Mutation" where
  "reverse_mutation genome_size mutation =
     (let newmut = mutation\<lparr>ref_nuc := complement (ref_nuc mutation),
                            par_nuc := complement (par_nuc mutation),
                            mut_nuc := complement (mut_nuc mutation)\<rparr>
      in case to_c_int (genome_size - sint (position mutation) - 1) of
           Inl e \<Rightarrow> Inl e
         | Inr p \<Rightarrow> Inr (newmut\<lparr>position := p\<rparr>))"

text \<open>
  The inner loop over the mutations of one node: each replacement is pushed to the
  back of the vector \<^verbatim>\<open>nmv\<close>. An error leaves the loop before the vector is
  written to the node.
\<close>

fun reverse_mutations :: "int \<Rightarrow> Mutation list \<Rightarrow> Mutation list \<Rightarrow> error + Mutation list" where
  "reverse_mutations genome_size [] nmv = Inr nmv"
| "reverse_mutations genome_size (mutation # rest) nmv =
     (case reverse_mutation genome_size mutation of
        Inl e \<Rightarrow> Inl e
      | Inr newmut \<Rightarrow> reverse_mutations genome_size rest (nmv @ [newmut]))"

text \<open>
  Modelled from the spec: the "node mutation-list mutator (write access)" of the tree
  engine (section 6). The loop of \<^verbatim>\<open>reverse_strand\<close> holds the nodes as the
  pointers \<^verbatim>\<open>nodes[i]\<close> of the expansion, so the node that is written is named by
  its place \<open>i\<close> in the expansion of the root; nothing but its mutation list changes.
\<close>

fun set_mutations :: "nat \<Rightarrow> Mutation list \<Rightarrow> Node \<Rightarrow> Node"
  and set_mutations_forest :: "nat \<Rightarrow> Mutation list \<Rightarrow> Node list \<Rightarrow> Node list" where
  "set_mutations i nmv (Node nid ms cs) =
     (if i = 0 then Node nid nmv cs else Node nid ms (set_mutations_forest (i - 1) nmv cs))"
| "set_mutations_forest i nmv [] = []"
| "set_mutations_forest i nmv (c # cs) =
     (if i < length (dfe_node c) then set_mutations i nmv c # cs
      else c # set_mutations_forest (i - length (dfe_node c)) nmv cs)"

text \<open>
  The loop of \<^verbatim>\<open>reverse_strand\<close> over \<^verbatim>\<open>range(nodes.size())\<close>: the vector
  \<^verbatim>\<open>nmv\<close> is filled from the mutations of \<^verbatim>\<open>nodes[i]\<close> and written back to that
  node. When a conversion raises, the call ends there: the nodes before \<open>i\<close> keep their
  new lists, the node \<open>i\<close> and those after it keep their old ones. The result is the
  tree as the call leaves it, and the error if there was one. Nothing in the function
  looks at the sign of \<^verbatim>\<open>genome_size\<close>.
\<close>

fun reverse_strand_loop :: "int \<Rightarrow> nat list \<Rightarrow> Node \<Rightarrow> Node \<times> error option" where
  "reverse_strand_loop genome_size [] r = (r, None)"
| "reverse_strand_loop genome_size (i # rest) r =
     (case reverse_mutations genome_size (mutations (dfe_node r ! i)) [] of
        Inl e \<Rightarrow> (r, Some e)
      | Inr nmv \<Rightarrow> reverse_strand_loop genome_size rest (set_mutations i nmv r))"

definition reverse_strand :: "Tree \<Rightarrow> int \<Rightarrow> Tree \<times> error option" where
  "reverse_strand t genome_size =
     (case root t of
        None \<Rightarrow> (t, None)
      | Some r \<Rightarrow>
          (case reverse_strand_loop genome_size [0..<length (dfe_node r)] r of
             (r', e) \<Rightarrow> (t\<lparr>root := Some r'\<rparr>, e)))"

section \<open>Observations and example trees\<close>

text \<open>
  The topology of a node: its identifier and its children, with every mutation list
  erased. Two trees of the same topology differ in their mutation lists only.
\<close>

fun topology :: "Node \<Rightarrow> Node" where
  "topology (Node i ms cs) = Node i [] (map topology cs)"

text \<open>
  A reversed position fits when it is in the range of the C \<^verbatim>\<open>int\<close>. The image of a
  mutation is the replacement that \<^verbatim>\<open>reverse_strand\<close> stores for it when its
  reversed position fits, and the image of a node is the node in which every mutation is
  replaced by its image: what the loop has made of the tree when it ends without an
  error (lemma \<open>reverse_strand_loop_range\<close> below).
\<close>

definition fits_c_int :: "int \<Rightarrow> Mutation \<Rightarrow> bool" where
  "fits_c_int genome_size m =
     (- (2 ^ 31) \<le> genome_size - sint (position m) - 1
      \<and> genome_size - sint (position m) - 1 < 2 ^ 31)"

definition reverse_image :: "int \<Rightarrow> Mutation \<Rightarrow> Mutation" where
  "reverse_image genome_size m =
     m\<lparr>ref_nuc := complement (ref_nuc m),
       par_nuc := complement (par_nuc m),
       mut_nuc := complement (mut_nuc m),
       position := word_of_int (genome_size - sint (position m) - 1)\<rparr>"

fun reverse_node :: "int \<Rightarrow> Node \<Rightarrow> Node" where
  "reverse_node genome_size (Node i ms cs) =
     Node i (map (reverse_image genome_size) ms) (map (reverse_node genome_size) cs)"

text \<open>
  The mutation A123T, trees with one, two and three leaves under the root, and leaf
  assignments for them.
\<close>

definition mutA123T :: Mutation where
  "mutA123T = \<lparr>position = 123, ref_nuc = 1, par_nuc = 1, mut_nuc = 8\<rparr>"

definition ex_single_child :: Tree where
  "ex_single_child = \<lparr>root = Some (Node ''r'' [] [Node ''a'' [] []])\<rparr>"

definition ex_two_leaves :: Tree where
  "ex_two_leaves = \<lparr>root = Some (Node ''r'' [] [Node ''a'' [mutA123T] [], Node ''b'' [] []])\<rparr>"

definition ex_polytomy :: Tree where
  "ex_polytomy =
     \<lparr>root = Some (Node ''r'' [] [Node ''a'' [] [], Node ''b'' [] [], Node ''c'' [] []])\<rparr>"

definition states_xyx :: "string \<rightharpoonup> string" where
  "states_xyx = [''a'' \<mapsto> ''X'', ''b'' \<mapsto> ''Y'', ''c'' \<mapsto> ''X'']"

definition states_xx :: "string \<rightharpoonup> string" where
  "states_xx = [''a'' \<mapsto> ''X'', ''b'' \<mapsto> ''X'']"

text \<open>
  In a list of nodes in which every node comes before its children (as in a pre-order
  expansion), the children of each node are found among the nodes after it.
\<close>

fun kids_after :: "Node list \<Rightarrow> bool" where
  "kids_after [] = True"
| "kids_after (n # qs) = (set (children n) \<subseteq> set qs \<and> kids_after qs)"

text \<open>
  The key under which \<^verbatim>\<open>count_haplotypes\<close> files a sample: the sorted tuple of
  its divergence set.
\<close>

definition sample_key :: "Tree \<Rightarrow> string \<Rightarrow> string list" where
  "sample_key t sample = sorted_list_of_set (projr (accumulate_mutations t sample))"

text \<open>
  The mutation C5G, and a tree whose leaves a and b meet A123T and C5G in opposite
  orders on their paths from the root; the empty tree; the tree of a single leaf.
\<close>

definition mutC5G :: Mutation where
  "mutC5G = \<lparr>position = 5, ref_nuc = 2, par_nuc = 2, mut_nuc = 4\<rparr>"

definition ex_swapped :: Tree where
  "ex_swapped =
     \<lparr>root = Some (Node ''r'' []
        [Node ''n1'' [mutA123T] [Node ''a'' [mutC5G] []],
         Node ''n2'' [mutC5G] [Node ''b'' [mutA123T] []]])\<rparr>"

definition ex_empty :: Tree where
  "ex_empty = \<lparr>root = None\<rparr>"

definition ex_single_leaf :: Tree where
  "ex_single_leaf = \<lparr>root = Some (Node ''r'' [mutA123T] [])\<rparr>"

text \<open>
  The mutation T123A, and a path that carries A123T and then T123A; a mutation at
  position 1000, and a tree whose root carries it above a leaf that carries A123T.
\<close>

definition mutT123A :: Mutation where
  "mutT123A = \<lparr>position = 123, ref_nuc = 8, par_nuc = 8, mut_nuc = 1\<rparr>"

definition ex_cancel :: Tree where
  "ex_cancel = \<lparr>root = Some (Node ''r'' [mutA123T] [Node ''s'' [mutT123A] []])\<rparr>"



section \<open>Strand reversal\<close>

lemma sint_to_c_int:
  "- (2 ^ 31) \<le> v \<Longrightarrow> v < 2 ^ 31 \<Longrightarrow> sint (word_of_int v :: 32 word) = v"
  by (simp add: sint_sbintrunc' signed_take_bit_int_eq_self)

lemma sint_c_int_range: "- (2 ^ 31) \<le> sint (w :: 32 word) \<and> sint w < 2 ^ 31"
  using sint_ge [of w] sint_lt [of w] by simp


lemma reverse_mutation_cases:
  "reverse_mutation L m = (if fits_c_int L m then Inr (reverse_image L m) else Inl OverflowError)"
  by (simp add: reverse_mutation_def to_c_int_def fits_c_int_def reverse_image_def Let_def)

lemma position_image:
  "position (reverse_image L m) = word_of_int (L - sint (position m) - 1)"
proof -
  have "position (m\<lparr>ref_nuc := a, par_nuc := b, mut_nuc := c, position := p\<rparr>) = p"
    for a b c p by simp
  then show ?thesis unfolding reverse_image_def .
qed

lemma reverse_mutations_fit:
  "\<forall>m\<in>set ms. fits_c_int L m
     \<Longrightarrow> reverse_mutations L ms nmv = Inr (nmv @ map (reverse_image L) ms)"
  by (induction ms arbitrary: nmv) (simp_all add: reverse_mutation_cases)

lemma reverse_mutations_overflow:
  "\<not> (\<forall>m\<in>set ms. fits_c_int L m) \<Longrightarrow> reverse_mutations L ms nmv = Inl OverflowError"
  by (induction ms arbitrary: nmv) (auto simp: reverse_mutation_cases)

lemma sint_position_image:
  "fits_c_int L m \<Longrightarrow> sint (position (reverse_image L m)) = L - sint (position m) - 1"
  unfolding position_image by (rule sint_to_c_int) (simp_all only: fits_c_int_def)

lemma fits_image: "fits_c_int L m \<Longrightarrow> fits_c_int L (reverse_image L m)"
  using sint_c_int_range [of "position m"]
  by (simp add: fits_c_int_def [of L "reverse_image L m"] sint_position_image)



lemma topology_set_mutations:
  "topology (set_mutations i v n) = topology n"
  "map topology (set_mutations_forest i v cs) = map topology cs"
  by (induction i v n and i v cs rule: set_mutations_set_mutations_forest.induct) simp_all

lemma length_dfe_topology: "length (dfe_node (topology n)) = length (dfe_node n)"
proof (induction n)
  case (Node i ms cs)
  have "map (\<lambda>c. length (dfe_node (topology c))) cs = map (\<lambda>c. length (dfe_node c)) cs"
    using Node.IH by simp
  then have "sum_list (map (\<lambda>c. length (dfe_node (topology c))) cs)
               = sum_list (map (\<lambda>c. length (dfe_node c)) cs)"
    by (rule arg_cong)
  then show ?case by (simp add: length_concat comp_def)
qed

lemma length_dfe_same_topology:
  "topology a = topology b \<Longrightarrow> length (dfe_node a) = length (dfe_node b)"
  by (metis length_dfe_topology)

lemma lists_set_mutations:
  "i < length (dfe_node n)
     \<Longrightarrow> map mutations (dfe_node (set_mutations i v n)) = (map mutations (dfe_node n))[i := v]"
  "i < length (concat (map dfe_node cs))
     \<Longrightarrow> map mutations (concat (map dfe_node (set_mutations_forest i v cs)))
         = (map mutations (concat (map dfe_node cs)))[i := v]"
proof (induction i v n and i v cs rule: set_mutations_set_mutations_forest.induct)
  case (1 i nmv nid ms cs)
  then show ?case by (cases i) simp_all
next
  case (2 i nmv)
  then show ?case by simp
next
  case (3 i nmv c cs)
  show ?case
  proof (cases "i < length (dfe_node c)")
    case True
    with 3 show ?thesis by (simp add: list_update_append)
  next
    case False
    with 3 show ?thesis by (simp add: list_update_append)
  qed
qed

lemma same_topology_same_lists:
  "topology a = topology b \<Longrightarrow> map mutations (dfe_node a) = map mutations (dfe_node b) \<Longrightarrow> a = b"
proof (induction a arbitrary: b)
  case (Node i ms cs)
  obtain j ns ds where b: "b = Node j ns ds" by (cases b)
  from Node.prems(1) b have ij: "i = j" and tp: "map topology cs = map topology ds" by simp_all
  from Node.prems(2) b have mn: "ms = ns"
    and rest: "map mutations (concat (map dfe_node cs)) = map mutations (concat (map dfe_node ds))"
    by simp_all
  have "cs = ds"
    using tp rest Node.IH
  proof (induction cs arbitrary: ds)
    case Nil
    then show ?case by simp
  next
    case (Cons c cs)
    from Cons.prems(1) obtain d ds' where ds: "ds = d # ds'"
      and cd: "topology c = topology d" and tl: "map topology cs = map topology ds'"
      by (cases ds) auto
    from length_dfe_same_topology [OF cd]
    have len: "length (map mutations (dfe_node c)) = length (map mutations (dfe_node d))" by simp
    from Cons.prems(2) ds
    have "map mutations (dfe_node c) @ map mutations (concat (map dfe_node cs))
            = map mutations (dfe_node d) @ map mutations (concat (map dfe_node ds'))"
      by simp
    with len have h: "map mutations (dfe_node c) = map mutations (dfe_node d)"
      and t: "map mutations (concat (map dfe_node cs)) = map mutations (concat (map dfe_node ds'))"
      by simp_all
    have "c = d" using Cons.prems(3) [of c d] cd h by simp
    moreover have "cs = ds'"
      using Cons.IH [OF tl t] Cons.prems(3) by simp
    ultimately show ?case by (simp add: ds)
  qed
  with ij mn b show ?case by simp
qed









lemma topology_reverse_node: "topology (reverse_node L n) = topology n"
  by (induction n) simp

lemma dfe_reverse_node: "dfe_node (reverse_node L n) = map (reverse_node L) (dfe_node n)"
  by (induction n) (simp add: map_concat cong: map_cong)

lemma mutations_reverse_node:
  "mutations (reverse_node L n) = map (reverse_image L) (mutations n)"
  by (cases n) simp


lemma fits_reverse_node:
  "\<forall>n\<in>set (dfe_node r). \<forall>m\<in>set (mutations n). fits_c_int L m
     \<Longrightarrow> \<forall>n\<in>set (dfe_node (reverse_node L r)). \<forall>m\<in>set (mutations n). fits_c_int L m"
  by (auto simp: dfe_reverse_node mutations_reverse_node fits_image)


lemma reverse_strand_loop_range:
  assumes "k \<le> length xs" and "length (dfe_node r) = length xs"
      and "map mutations (dfe_node r) = map (map (reverse_image L)) (take k xs) @ drop k xs"
  shows "if \<forall>ms\<in>set (drop k xs). \<forall>m\<in>set ms. fits_c_int L m
         then \<exists>r'. reverse_strand_loop L [k..<length xs] r = (r', None)
                \<and> topology r' = topology r
                \<and> map mutations (dfe_node r') = map (map (reverse_image L)) xs
         else snd (reverse_strand_loop L [k..<length xs] r) = Some OverflowError"
  using assms
proof (induction "length xs - k" arbitrary: k r)
  case 0
  then show ?case by simp
next
  case (Suc d)
  from Suc.hyps(2) have k: "k < length xs" by simp
  have idx: "[k..<length xs] = k # [Suc k..<length xs]"
    using k by (simp add: upt_conv_Cons)
  have dr: "drop k xs = xs ! k # drop (Suc k) xs"
    using k by (simp add: Cons_nth_drop_Suc)
  have "map mutations (dfe_node r) ! k = xs ! k"
    using k by (simp add: Suc.prems(3) nth_append dr)
  then have read: "mutations (dfe_node r ! k) = xs ! k"
    using k Suc.prems(2) by simp
  show ?case
  proof (cases "\<forall>m\<in>set (xs ! k). fits_c_int L m")
    case False
    then have "\<not> (\<forall>ms\<in>set (drop k xs). \<forall>m\<in>set ms. fits_c_int L m)"
      by (simp add: dr)
    moreover have "snd (reverse_strand_loop L [k..<length xs] r) = Some OverflowError"
      by (simp add: idx read reverse_mutations_overflow [OF False])
    ultimately show ?thesis by (simp only: if_False)
  next
    case True
    define r1 where "r1 = set_mutations k (map (reverse_image L) (xs ! k)) r"
    have step: "reverse_strand_loop L [k..<length xs] r
                  = reverse_strand_loop L [Suc k..<length xs] r1"
      by (simp add: idx read reverse_mutations_fit [OF True] r1_def)
    have tp: "topology r1 = topology r" by (simp add: r1_def topology_set_mutations)
    then have len: "length (dfe_node r1) = length xs"
      using length_dfe_same_topology [of r1 r] Suc.prems(2) by simp
    have "map mutations (dfe_node r1)
            = (map (map (reverse_image L)) (take k xs) @ drop k xs)
                [k := map (reverse_image L) (xs ! k)]"
      using k Suc.prems(2,3) by (simp add: r1_def lists_set_mutations)
    also have "\<dots> = map (map (reverse_image L)) (take k xs)
                        @ (map (reverse_image L) (xs ! k) # drop (Suc k) xs)"
      using k by (simp add: dr list_update_append)
    also have "\<dots> = map (map (reverse_image L)) (take (Suc k) xs) @ drop (Suc k) xs"
      using k by (simp add: take_Suc_conv_app_nth)
    finally have ls: "map mutations (dfe_node r1)
            = map (map (reverse_image L)) (take (Suc k) xs) @ drop (Suc k) xs" .
    have d: "d = length xs - Suc k" using Suc.hyps(2) by simp
    have sk: "Suc k \<le> length xs" using k by simp
    have all: "(\<forall>ms\<in>set (drop k xs). \<forall>m\<in>set ms. fits_c_int L m)
                 = (\<forall>ms\<in>set (drop (Suc k) xs). \<forall>m\<in>set ms. fits_c_int L m)"
      using True by (simp add: dr)
    from Suc.hyps(1) [OF d sk len ls] show ?thesis
      unfolding all step tp .
  qed
qed

lemma reverse_strand_loop_all:
  "if \<forall>n\<in>set (dfe_node r). \<forall>m\<in>set (mutations n). fits_c_int L m
   then reverse_strand_loop L [0..<length (dfe_node r)] r = (reverse_node L r, None)
   else snd (reverse_strand_loop L [0..<length (dfe_node r)] r) = Some OverflowError"
proof -
  define xs where "xs = map mutations (dfe_node r)"
  have n: "length (dfe_node r) = length xs" by (simp add: xs_def)
  have fit: "(\<forall>ms\<in>set (drop 0 xs). \<forall>m\<in>set ms. fits_c_int L m)
               = (\<forall>n\<in>set (dfe_node r). \<forall>m\<in>set (mutations n). fits_c_int L m)"
    by (simp add: xs_def)
  have rng: "if \<forall>ms\<in>set (drop 0 xs). \<forall>m\<in>set ms. fits_c_int L m
         then \<exists>r'. reverse_strand_loop L [0..<length xs] r = (r', None)
                \<and> topology r' = topology r
                \<and> map mutations (dfe_node r') = map (map (reverse_image L)) xs
         else snd (reverse_strand_loop L [0..<length xs] r) = Some OverflowError"
    by (rule reverse_strand_loop_range) (simp_all add: xs_def)
  show ?thesis
  proof (cases "\<forall>n\<in>set (dfe_node r). \<forall>m\<in>set (mutations n). fits_c_int L m")
    case False
    with fit have nf: "\<not> (\<forall>ms\<in>set (drop 0 xs). \<forall>m\<in>set ms. fits_c_int L m)" by blast
    from rng have "snd (reverse_strand_loop L [0..<length xs] r) = Some OverflowError"
      by (simp only: nf if_False)
    then show ?thesis by (simp only: False if_False n)
  next
    case True
    with fit have yf: "\<forall>ms\<in>set (drop 0 xs). \<forall>m\<in>set ms. fits_c_int L m" by blast
    from rng [unfolded if_P [OF yf]]
    obtain r' where r': "reverse_strand_loop L [0..<length xs] r = (r', None)"
      "topology r' = topology r" "map mutations (dfe_node r') = map (map (reverse_image L)) xs"
      by blast
    have "r' = reverse_node L r"
    proof (rule same_topology_same_lists)
      show "topology r' = topology (reverse_node L r)"
        by (simp add: r'(2) topology_reverse_node)
      show "map mutations (dfe_node r') = map mutations (dfe_node (reverse_node L r))"
        by (simp add: r'(3) xs_def dfe_reverse_node comp_def mutations_reverse_node)
    qed
    with r'(1) have "reverse_strand_loop L [0..<length (dfe_node r)] r = (reverse_node L r, None)"
      by (simp add: n)
    then show ?thesis unfolding if_P [OF True] .
  qed
qed


lemma reverse_strand_fit:
  assumes "\<forall>n\<in>set (depth_first_expansion (root t)). \<forall>m\<in>set (mutations n). fits_c_int L m"
  shows "reverse_strand t L = (t\<lparr>root := map_option (reverse_node L) (root t)\<rparr>, None)"
proof (cases "root t")
  case None
  then have "t\<lparr>root := None\<rparr> = t" by (cases t) simp
  with None show ?thesis by (simp add: reverse_strand_def)
next
  case (Some r)
  with assms have "\<forall>n\<in>set (dfe_node r). \<forall>m\<in>set (mutations n). fits_c_int L m"
    by (simp add: depth_first_expansion_def)
  from reverse_strand_loop_all [of r L, unfolded if_P [OF this]] Some show ?thesis
    by (simp add: reverse_strand_def)
qed

lemma reverse_strand_overflow:
  assumes "\<not> (\<forall>n\<in>set (depth_first_expansion (root t)). \<forall>m\<in>set (mutations n). fits_c_int L m)"
  shows "snd (reverse_strand t L) = Some OverflowError"
proof (cases "root t")
  case None
  with assms show ?thesis by (simp add: depth_first_expansion_def)
next
  case (Some r)
  with assms have "\<not> (\<forall>n\<in>set (dfe_node r). \<forall>m\<in>set (mutations n). fits_c_int L m)"
    by (simp add: depth_first_expansion_def)
  from reverse_strand_loop_all [of r L, unfolded if_not_P [OF this]]
  have e: "snd (reverse_strand_loop L [0..<length (dfe_node r)] r) = Some OverflowError" .
  obtain r' e' where eq: "reverse_strand_loop L [0..<length (dfe_node r)] r = (r', e')"
    by (cases "reverse_strand_loop L [0..<length (dfe_node r)] r")
  with e Some show ?thesis by (simp add: reverse_strand_def)
qed



lemma dfe_reverse_tree:
  "depth_first_expansion (root (t\<lparr>root := map_option (reverse_node L) (root t)\<rparr>))
     = map (reverse_node L) (depth_first_expansion (root t))"
  by (simp add: depth_first_expansion_def dfe_reverse_node split: option.splits)




text \<open>
  Claim C3, as stated, fails: \<^verbatim>\<open>reverse_strand\<close> never looks at the sign of the genome
  length. With genome length 0 the call completes without an error, and the leaf that
  carried A123T now carries the mutation at position -124 with complemented bases.
\<close>

theorem reverse_strand_zero_length_writes:
  "snd (reverse_strand ex_two_leaves 0) = None
   \<and> map mutations (depth_first_expansion (root (fst (reverse_strand ex_two_leaves 0))))
       = [[], [\<lparr>position = - 124, ref_nuc = 8, par_nuc = 8, mut_nuc = 1\<rparr>], []]
   \<and> map mutations (depth_first_expansion (root ex_two_leaves)) = [[], [mutA123T], []]
   \<and> mutA123T \<noteq> \<lparr>position = - 124, ref_nuc = 8, par_nuc = 8, mut_nuc = 1\<rparr>"
  by code_simp

text \<open>
  Claim C3, amended. For a genome length that is zero or negative, \<^verbatim>\<open>reverse_strand\<close>
  does what it does for any other. When every reversed position of the tree fits the
  C \<^verbatim>\<open>int\<close>, the call completes and the mutation list of every node is replaced by
  the list of the images of its mutations, a mutation at position \<open>p\<close> moving to
  \<open>L - p - 1\<close>, so that a mutation at a position that is not negative is changed.
  When some reversed position does not fit, the call raises OverflowError, the only
  error it has.
\<close>

theorem reverse_strand_unchecked:
  assumes "L \<le> 0"
  shows "((\<forall>n\<in>set (depth_first_expansion (root t)). \<forall>m\<in>set (mutations n). fits_c_int L m)
           \<longrightarrow> (\<exists>t'. reverse_strand t L = (t', None)
                  \<and> map mutations (depth_first_expansion (root t'))
                      = map (\<lambda>n. map (reverse_image L) (mutations n))
                          (depth_first_expansion (root t))))
         \<and> (\<not> (\<forall>n\<in>set (depth_first_expansion (root t)). \<forall>m\<in>set (mutations n). fits_c_int L m)
           \<longrightarrow> snd (reverse_strand t L) = Some OverflowError)
         \<and> (fits_c_int L m
           \<longrightarrow> sint (position (reverse_image L m)) = L - sint (position m) - 1
             \<and> (0 \<le> sint (position m) \<longrightarrow> reverse_image L m \<noteq> m))"
proof -
  have a: "\<exists>t'. reverse_strand t L = (t', None)
                  \<and> map mutations (depth_first_expansion (root t'))
                      = map (\<lambda>n. map (reverse_image L) (mutations n))
                          (depth_first_expansion (root t))"
    if fit: "\<forall>n\<in>set (depth_first_expansion (root t)). \<forall>m\<in>set (mutations n). fits_c_int L m"
  proof -
    have "map mutations (depth_first_expansion
              (root (t\<lparr>root := map_option (reverse_node L) (root t)\<rparr>)))
            = map (\<lambda>n. map (reverse_image L) (mutations n)) (depth_first_expansion (root t))"
      unfolding dfe_reverse_tree by (simp add: comp_def mutations_reverse_node)
    with reverse_strand_fit [OF fit] show ?thesis by blast
  qed
  have c: "reverse_image L m \<noteq> m" if "fits_c_int L m" "0 \<le> sint (position m)"
  proof
    assume "reverse_image L m = m"
    then have "sint (position (reverse_image L m)) = sint (position m)" by simp
    with sint_position_image [OF that(1)] that(2) assms show False by simp
  qed
  show ?thesis
  proof (intro conjI impI)
    show "\<exists>t'. reverse_strand t L = (t', None)
                  \<and> map mutations (depth_first_expansion (root t'))
                      = map (\<lambda>n. map (reverse_image L) (mutations n))
                          (depth_first_expansion (root t))"
      if "\<forall>n\<in>set (depth_first_expansion (root t)). \<forall>m\<in>set (mutations n). fits_c_int L m"
      by (rule a [OF that])
    show "snd (reverse_strand t L) = Some OverflowError"
      if "\<not> (\<forall>n\<in>set (depth_first_expansion (root t)). \<forall>m\<in>set (mutations n). fits_c_int L m)"
      by (rule reverse_strand_overflow [OF that])
    show "sint (position (reverse_image L m)) = L - sint (position m) - 1" if "fits_c_int L m"
      by (rule sint_position_image [OF that])
    show "reverse_image L m \<noteq> m" if "fits_c_int L m" "0 \<le> sint (position m)"
      by (rule c [OF that])
  qed
qed

theorem reverse_strand_unchecked_witness:
  "snd (reverse_strand ex_two_leaves (- 5)) = None
   \<and> map mutations (depth_first_expansion (root (fst (reverse_strand ex_two_leaves (- 5)))))
       = [[], [reverse_image (- 5) mutA123T], []]
   \<and> sint (position (reverse_image (- 5) mutA123T)) = - 129
   \<and> reverse_image (- 5) mutA123T \<noteq> mutA123T
   \<and> snd (reverse_strand ex_two_leaves (- 2147483648)) = Some OverflowError"
proof -
  have low: "(- 2147483648 :: int) \<le> 0" by simp
  have nofit: "\<not> (\<forall>n\<in>set (depth_first_expansion (root ex_two_leaves)).
                     \<forall>m\<in>set (mutations n). fits_c_int (- 2147483648) m)"
    by code_simp
  from reverse_strand_unchecked [OF low, of ex_two_leaves mutA123T] nofit
  have ov: "snd (reverse_strand ex_two_leaves (- 2147483648)) = Some OverflowError"
    by blast
  have h: "(- 5 :: int) \<le> 0" by simp
  have fit: "\<forall>n\<in>set (depth_first_expansion (root ex_two_leaves)).
               \<forall>m\<in>set (mutations n). fits_c_int (- 5) m"
    by code_simp
  have f: "fits_c_int (- 5) mutA123T" by code_simp
  have p: "0 \<le> sint (position mutA123T)" by code_simp
  have s: "sint (position mutA123T) = 123" by code_simp
  have d: "map (\<lambda>n. map (reverse_image (- 5)) (mutations n))
             (depth_first_expansion (root ex_two_leaves))
           = [[], [reverse_image (- 5) mutA123T], []]"
    by (simp add: ex_two_leaves_def depth_first_expansion_def)
  from reverse_strand_unchecked [OF h, of ex_two_leaves mutA123T] fit
  obtain t' where t': "reverse_strand ex_two_leaves (- 5) = (t', None)"
    "map mutations (depth_first_expansion (root t'))
       = map (\<lambda>n. map (reverse_image (- 5)) (mutations n))
           (depth_first_expansion (root ex_two_leaves))"
    by blast
  from reverse_strand_unchecked [OF h, of ex_two_leaves mutA123T] f p
  have "sint (position (reverse_image (- 5) mutA123T)) = - 5 - sint (position mutA123T) - 1"
    "reverse_image (- 5) mutA123T \<noteq> mutA123T"
    by blast+
  with t' d s ov show ?thesis by simp
qed

section \<open>Polytomy resolution and the tree held by the object\<close>









section \<open>The assertion of the parsimony solver\<close>

lemma parsimony_loop_append:
  "parsimony_loop (xs @ ys) m =
     (case parsimony_loop xs m of Inl e \<Rightarrow> Inl e | Inr m' \<Rightarrow> parsimony_loop ys m')"
  by (induction xs arbitrary: m) (simp_all add: Let_def split: option.splits)

lemma parsimony_loop_errors:
  "parsimony_loop xs m = Inl e \<Longrightarrow> e = AssertionError \<or> e = KeyError"
  by (induction xs arbitrary: m) (auto simp: Let_def split: option.splits if_splits)

lemma parsimony_loop_assert:
  assumes "n \<in> set xs" "\<not> is_leaf n" "length (children n) \<noteq> 2"
  shows "parsimony_loop xs m = Inl AssertionError \<or> parsimony_loop xs m = Inl KeyError"
proof -
  from assms(1) obtain ps qs where xs: "xs = ps @ n # qs"
    by (auto simp: in_set_conv_decomp)
  show ?thesis
  proof (cases "parsimony_loop ps m")
    case (Inl e)
    then show ?thesis
      using parsimony_loop_errors [of ps m e] by (auto simp: xs parsimony_loop_append)
  next
    case (Inr m')
    then show ?thesis
      using assms(2,3) by (simp add: xs parsimony_loop_append Let_def)
  qed
qed

text \<open>
  Claim C1, as stated, fails: the solver resolves the polytomies before it walks the
  tree. The root with the three leaves a, b, c is taken, the call returns a mapping, and
  the root gets the state X.
\<close>

theorem simple_parsimony_accepts_polytomy:
  "length (children (the (root ex_polytomy))) = 3
   \<and> \<not> isl (snd (simple_parsimony ex_polytomy states_xyx))
   \<and> projr (snd (simple_parsimony ex_polytomy states_xyx)) ''r'' = Some {''X''}"
  by code_simp

text \<open>
  Claim C1, amended. The assertion is on the resolved tree: when the tree that
  \<^verbatim>\<open>resolve_all_polytomies\<close> returns has an inner node whose number of children is
  not two, \<^verbatim>\<open>simple_parsimony\<close> returns no mapping. It fails with the assertion error,
  or with the key error of a node read earlier in the walk.
\<close>

theorem simple_parsimony_asserts_resolved:
  assumes "n \<in> set (depth_first_expansion (root (resolve_all_polytomies t)))"
      and "\<not> is_leaf n" and "length (children n) \<noteq> 2"
  shows "snd (simple_parsimony t la) = Inl AssertionError
         \<or> snd (simple_parsimony t la) = Inl KeyError"
proof -
  from assms(1) have "n \<in> set (rev (depth_first_expansion (root (resolve_all_polytomies t))))"
    by simp
  from parsimony_loop_assert [OF this assms(2,3)] show ?thesis
    by (simp add: simple_parsimony_def Let_def)
qed

theorem simple_parsimony_asserts_resolved_witness:
  "snd (simple_parsimony ex_single_child states_xyx) = Inl AssertionError"
proof -
  have h1: "Node ''r'' [] [Node ''a'' [] []]
              \<in> set (depth_first_expansion (root (resolve_all_polytomies ex_single_child)))"
    by (simp add: ex_single_child_def resolve_all_polytomies_def depth_first_expansion_def)
  have h2: "\<not> is_leaf (Node ''r'' [] [Node ''a'' [] []])"
    by (simp add: is_leaf_def)
  have h3: "length (children (Node ''r'' [] [Node ''a'' [] []])) \<noteq> 2"
    by simp
  have "projl (snd (simple_parsimony ex_single_child states_xyx)) = AssertionError"
    by code_simp
  with simple_parsimony_asserts_resolved [OF h1 h2 h3, of states_xyx] show ?thesis
    by auto
qed

section \<open>Fitch inference\<close>

lemma kids_after_append: "kids_after xs \<Longrightarrow> kids_after ys \<Longrightarrow> kids_after (xs @ ys)"
  by (induction xs) auto

lemma kids_after_concat:
  "(\<And>c. c \<in> set cs \<Longrightarrow> kids_after (f c)) \<Longrightarrow> kids_after (concat (map f cs))"
  by (induction cs) (simp_all add: kids_after_append)

lemma self_in_dfe_node: "n \<in> set (dfe_node n)"
  by (cases n) simp

lemma kids_after_dfe_node: "kids_after (dfe_node r)"
proof (induction r)
  case (Node i ms cs)
  have "set cs \<subseteq> set (concat (map dfe_node cs))"
    using self_in_dfe_node by auto
  moreover have "kids_after (concat (map dfe_node cs))"
    using Node.IH by (rule kids_after_concat)
  ultimately show ?case by simp
qed

lemma kids_after_mem: "kids_after qs \<Longrightarrow> x \<in> set qs \<Longrightarrow> set (children x) \<subseteq> set qs"
  by (induction qs) auto

lemma parsimony_loop_frame:
  "parsimony_loop xs m = Inr m' \<Longrightarrow> k \<notin> identifier' ` {n \<in> set xs. \<not> is_leaf n} \<Longrightarrow> m' k = m k"
proof (induction xs arbitrary: m)
  case Nil
  then show ?case by simp
next
  case (Cons n xs)
  show ?case
  proof (cases "is_leaf n")
    case True
    with Cons.prems have "parsimony_loop xs m = Inr m'" by simp
    from Cons.IH [OF this] Cons.prems(2) show ?thesis by auto
  next
    case False
    with Cons.prems(1) obtain st where st: "parsimony_loop xs (m(identifier' n \<mapsto> st)) = Inr m'"
      by (auto simp: Let_def split: option.splits if_splits)
    from Cons.prems(2) False have ne: "k \<noteq> identifier' n" by auto
    from Cons.prems(2) have "k \<notin> identifier' ` {n \<in> set xs. \<not> is_leaf n}" by auto
    from Cons.IH [OF st this] have "m' k = (m(identifier' n \<mapsto> st)) k" .
    with ne show ?thesis by simp
  qed
qed

lemma parsimony_loop_fitch:
  assumes "kids_after L" "distinct (map identifier' L)" "parsimony_loop (rev L) m = Inr m'"
      and "n \<in> set L" "\<not> is_leaf n"
  shows "\<exists>a b l r. children n = [a, b] \<and> m' (identifier' a) = Some l \<and> m' (identifier' b) = Some r
           \<and> m' (identifier' n) = Some (if l \<inter> r = {} then l \<union> r else l \<inter> r)"
  using assms
proof (induction L arbitrary: m' n)
  case Nil
  then show ?case by simp
next
  case (Cons x qs)
  from Cons.prems(3) obtain m1 where m1: "parsimony_loop (rev qs) m = Inr m1"
    and last: "parsimony_loop [x] m1 = Inr m'"
    by (auto simp: parsimony_loop_append split: sum.splits)
  from Cons.prems(1) have kq: "kids_after qs" and kx: "set (children x) \<subseteq> set qs" by simp_all
  from Cons.prems(2) have dq: "distinct (map identifier' qs)"
    and nx: "identifier' x \<notin> identifier' ` set qs" by simp_all
  have ih: "\<exists>a b l r. children y = [a, b] \<and> m1 (identifier' a) = Some l \<and> m1 (identifier' b) = Some r
           \<and> m1 (identifier' y) = Some (if l \<inter> r = {} then l \<union> r else l \<inter> r)"
    if "y \<in> set qs" "\<not> is_leaf y" for y
    using Cons.IH [OF kq dq m1 that] .
  show ?case
  proof (cases "is_leaf x")
    case True
    with last have eq: "m' = m1" by simp
    from True Cons.prems(4,5) have "n \<in> set qs" by auto
    from ih [OF this Cons.prems(5)] show ?thesis unfolding eq .
  next
    case False
    with last obtain a b l r where ch: "children x = [a, b]"
      and la: "m1 (identifier' a) = Some l" and lb: "m1 (identifier' b) = Some r"
      and m': "m' = m1(identifier' x \<mapsto> (if l \<inter> r = {} then l \<union> r else l \<inter> r))"
      by (cases "children x"; cases "tl (children x)"; cases "tl (tl (children x))")
         (auto simp: Let_def split: option.splits if_splits)
    have keep: "m' (identifier' y) = m1 (identifier' y)" if "y \<in> set qs" for y
    proof -
      from that have "identifier' y \<in> identifier' ` set qs" by simp
      with nx have "identifier' y \<noteq> identifier' x" by metis
      then show ?thesis by (simp add: m')
    qed
    show ?thesis
    proof (cases "n = x")
      case True
      from ch kx have "a \<in> set qs" "b \<in> set qs" by auto
      then have "m' (identifier' a) = Some l" "m' (identifier' b) = Some r"
        using keep la lb by auto
      moreover have "m' (identifier' x) = Some (if l \<inter> r = {} then l \<union> r else l \<inter> r)"
        by (simp add: m')
      ultimately show ?thesis using True ch by blast
    next
      case nx': False
      with Cons.prems(4) have nq: "n \<in> set qs" by simp
      from ih [OF nq Cons.prems(5)] obtain a' b' l' r' where
        c': "children n = [a', b']" and "m1 (identifier' a') = Some l'"
        "m1 (identifier' b') = Some r'"
        "m1 (identifier' n) = Some (if l' \<inter> r' = {} then l' \<union> r' else l' \<inter> r')"
        by blast
      moreover from kids_after_mem [OF kq nq] c' have "a' \<in> set qs" "b' \<in> set qs" by auto
      ultimately have "m' (identifier' a') = Some l'" "m' (identifier' b') = Some r'"
        "m' (identifier' n) = Some (if l' \<inter> r' = {} then l' \<union> r' else l' \<inter> r')"
        using keep nq by auto
      with c' show ?thesis by blast
    qed
  qed
qed


lemma kids_after_depth_first_expansion: "kids_after (depth_first_expansion start)"
  by (simp add: depth_first_expansion_def kids_after_dfe_node split: option.splits)

text \<open>
  Claim C7. Let the call return a mapping, and let the identifiers of the tree that the
  solver walks be distinct (it walks the resolved tree, which is the tree itself when
  no node has more than two children). Then every inner node of that tree has two
  children, both are in the mapping, and the node is mapped to the intersection of their
  state sets when it is not empty and to their union otherwise. When both children are
  leaves assigned x and y, their sets are the singletons, and the node gets \<open>{x}\<close> when
  x = y and \<open>{x, y}\<close> otherwise.
\<close>

theorem simple_parsimony_fitch:
  assumes "snd (simple_parsimony t la) = Inr m"
      and "distinct (map identifier' (depth_first_expansion (root (resolve_all_polytomies t))))"
      and "n \<in> set (depth_first_expansion (root (resolve_all_polytomies t)))"
      and "\<not> is_leaf n"
  shows "\<exists>a b l r. children n = [a, b]
           \<and> m (identifier' a) = Some l \<and> m (identifier' b) = Some r
           \<and> m (identifier' n) = Some (if l \<inter> r \<noteq> {} then l \<inter> r else l \<union> r)
           \<and> (\<forall>x y. is_leaf a \<and> is_leaf b
                  \<and> la (identifier' a) = Some x \<and> la (identifier' b) = Some y
                \<longrightarrow> l = {x} \<and> r = {y}
                    \<and> m (identifier' n) = Some (if x = y then {x} else {x, y}))"
proof -
  define L where "L = depth_first_expansion (root (resolve_all_polytomies t))"
  define m0 where "m0 = (\<lambda>l. map_option (\<lambda>v. {v}) (la l))"
  have ka: "kids_after L" by (simp add: L_def kids_after_depth_first_expansion)
  have di: "distinct (map identifier' L)" using assms(2) by (simp add: L_def)
  have run: "parsimony_loop (rev L) m0 = Inr m"
    using assms(1) by (simp add: simple_parsimony_def Let_def L_def m0_def)
  have nL: "n \<in> set L" using assms(3) by (simp add: L_def)
  from parsimony_loop_fitch [OF ka di run nL assms(4)]
  obtain a b l r where ch: "children n = [a, b]"
    and ma: "m (identifier' a) = Some l" and mb: "m (identifier' b) = Some r"
    and mn: "m (identifier' n) = Some (if l \<inter> r = {} then l \<union> r else l \<inter> r)"
    by blast
  from kids_after_mem [OF ka nL] ch have aL: "a \<in> set L" and bL: "b \<in> set L" by auto
  have inj: "inj_on identifier' (set L)" using di by (simp add: distinct_map)
  have seed: "m (identifier' c) = m0 (identifier' c)" if "c \<in> set L" "is_leaf c" for c
  proof (rule parsimony_loop_frame [OF run])
    show "identifier' c \<notin> identifier' ` {n \<in> set (rev L). \<not> is_leaf n}"
    proof
      assume "identifier' c \<in> identifier' ` {n \<in> set (rev L). \<not> is_leaf n}"
      then obtain y where "y \<in> set L" "\<not> is_leaf y" "identifier' c = identifier' y" by auto
      with inj that(1) have "c = y" by (auto dest: inj_onD)
      with that(2) \<open>\<not> is_leaf y\<close> show False by simp
    qed
  qed
  have part: "l = {x} \<and> r = {y} \<and> m (identifier' n) = Some (if x = y then {x} else {x, y})"
    if "is_leaf a" "is_leaf b" "la (identifier' a) = Some x" "la (identifier' b) = Some y" for x y
  proof -
    from seed [OF aL that(1)] ma that(3) have l: "l = {x}" by (simp add: m0_def)
    from seed [OF bL that(2)] mb that(4) have r: "r = {y}" by (simp add: m0_def)
    from mn l r show ?thesis by auto
  qed
  from mn have "m (identifier' n) = Some (if l \<inter> r \<noteq> {} then l \<inter> r else l \<union> r)" by simp
  with ch ma mb part show ?thesis by blast
qed

theorem simple_parsimony_fitch_witness:
  "projr (snd (simple_parsimony ex_two_leaves states_xyx)) ''r'' = Some {''X'', ''Y''}
   \<and> projr (snd (simple_parsimony ex_two_leaves states_xx)) ''r'' = Some {''X''}"
proof -
  define n0 where "n0 = Node ''r'' [] [Node ''a'' [mutA123T] [], Node ''b'' [] []]"
  have d: "distinct (map identifier' (depth_first_expansion (root (resolve_all_polytomies ex_two_leaves))))"
    by code_simp
  have n: "n0 \<in> set (depth_first_expansion (root (resolve_all_polytomies ex_two_leaves)))"
    unfolding n0_def by code_simp
  have i: "\<not> is_leaf n0" by (simp add: n0_def is_leaf_def)
  have ch: "children n0 = [Node ''a'' [mutA123T] [], Node ''b'' [] []]" by (simp add: n0_def)
  have lf: "is_leaf (Node ''a'' [mutA123T] [])" "is_leaf (Node ''b'' [] [])"
    by (simp_all add: is_leaf_def)
  have "\<not> isl (snd (simple_parsimony ex_two_leaves states_xyx))" by code_simp
  then have r1: "snd (simple_parsimony ex_two_leaves states_xyx)
                   = Inr (projr (snd (simple_parsimony ex_two_leaves states_xyx)))" by simp
  have "\<not> isl (snd (simple_parsimony ex_two_leaves states_xx))" by code_simp
  then have r2: "snd (simple_parsimony ex_two_leaves states_xx)
                   = Inr (projr (snd (simple_parsimony ex_two_leaves states_xx)))" by simp
  have s1: "states_xyx ''a'' = Some ''X''" "states_xyx ''b'' = Some ''Y''"
    by (simp_all add: states_xyx_def)
  have s2: "states_xx ''a'' = Some ''X''" "states_xx ''b'' = Some ''X''"
    by (simp_all add: states_xx_def)
  from simple_parsimony_fitch [OF r1 d n i] ch lf s1
  have "projr (snd (simple_parsimony ex_two_leaves states_xyx)) ''r'' = Some {''X'', ''Y''}"
    by (auto simp: n0_def)
  moreover from simple_parsimony_fitch [OF r2 d n i] ch lf s2
  have "projr (snd (simple_parsimony ex_two_leaves states_xx)) ''r'' = Some {''X''}"
    by (auto simp: n0_def)
  ultimately show ?thesis by simp
qed

section \<open>The diff engine returns a finite set\<close>

lemma get_string_length: "3 \<le> length (get_string m)"
proof -
  have "show_nat n \<noteq> []" for n
    by (subst show_nat.simps) simp
  then have "show_int i \<noteq> []" for i by (simp add: show_int_def)
  then have "1 \<le> length (show_int (sint (position m)))"
    by (cases "show_int (sint (position m))") simp_all
  then show ?thesis by (simp add: get_string_def)
qed

lemma oppo_of_Inr: "s \<noteq> [] \<Longrightarrow> oppo_of s = Inr (last s # butlast (tl s) @ [hd s])"
  by (simp add: oppo_of_def)

lemma accumulate_node_ok:
  "\<forall>s\<in>set ms. s \<noteq> [] \<Longrightarrow> finite allm
     \<Longrightarrow> \<exists>S. accumulate_node ms allm = Inr S \<and> finite S"
  by (induction ms arbitrary: allm) (simp_all add: oppo_of_Inr)

lemma accumulate_path_ok:
  "\<forall>ms\<in>set path. \<forall>s\<in>set ms. s \<noteq> [] \<Longrightarrow> finite allm
     \<Longrightarrow> \<exists>S. accumulate_path path allm = Inr S \<and> finite S"
proof (induction path arbitrary: allm)
  case Nil
  then show ?case by simp
next
  case (Cons ms path)
  from Cons.prems obtain S1 where s1: "accumulate_node ms allm = Inr S1" "finite S1"
    using accumulate_node_ok [of ms allm] by auto
  from Cons.IH [of S1] Cons.prems s1 show ?case by simp
qed

lemma accumulate_mutations_ok: "\<exists>S. accumulate_mutations t sample = Inr S \<and> finite S"
proof -
  have "get_string m \<noteq> []" for m
    using get_string_length [of m] by auto
  then have "s \<noteq> []" if "s \<in> set (map get_string ms)" for s ms
    using that by auto
  then show ?thesis
    unfolding accumulate_mutations_def Let_def
    by (intro accumulate_path_ok) auto
qed

section \<open>Haplotype counts\<close>

lemma sum_list_update:
  "distinct (map fst al)
     \<Longrightarrow> sum_list (map snd (AList.update k v al))
         = sum_list (map snd al) + v - (case map_of al k of None \<Rightarrow> 0 | Some c \<Rightarrow> c)"
  for v :: int
proof (induction al)
  case Nil
  then show ?case by simp
next
  case (Cons p al)
  obtain k' c' where p: "p = (k', c')" by (cases p)
  show ?case
  proof (cases "k' = k")
    case True
    with Cons.prems p have "map_of al k = None" by (simp add: map_of_eq_None_iff image_iff) 
    with True p show ?thesis by simp
  next
    case False
    with Cons p show ?thesis by simp
  qed
qed

lemma count_sample_spec:
  assumes "distinct (map fst divtrack)"
  shows "\<exists>d. count_sample divtrack smset = Inr d \<and> distinct (map fst d)
           \<and> map_of d = (map_of divtrack)(sorted_list_of_set smset \<mapsto>
                 (case map_of divtrack (sorted_list_of_set smset) of None \<Rightarrow> 1 | Some c \<Rightarrow> c + 1))
           \<and> sum_list (map snd d) = sum_list (map snd divtrack) + 1"
proof (cases "map_of divtrack (sorted_list_of_set smset)")
  case None
  then have notin: "sorted_list_of_set smset \<notin> fst ` set divtrack"
    by (simp add: map_of_eq_None_iff)
  show ?thesis
    using None notin assms
    by (simp add: count_sample_def Let_def dict_get_def update_conv' distinct_update
        sum_list_update)
next
  case (Some c)
  then have isin: "sorted_list_of_set smset \<in> fst ` set divtrack"
    by (metis map_of_eq_None_iff option.distinct(1))
  show ?thesis
    using Some isin assms
    by (simp add: count_sample_def Let_def dict_get_def update_conv' distinct_update
        sum_list_update)
qed

lemma count_loop_spec:
  assumes "distinct (map fst divtrack)"
  shows "\<exists>d. count_loop t samples divtrack = Inr d \<and> distinct (map fst d)
           \<and> sum_list (map snd d) = sum_list (map snd divtrack) + int (length samples)
           \<and> (\<forall>k. map_of d k =
                 (let c = int (length (filter (\<lambda>s. sample_key t s = k) samples))
                  in case map_of divtrack k of
                       None \<Rightarrow> if c = 0 then None else Some c
                     | Some c0 \<Rightarrow> Some (c0 + c)))"
  using assms
proof (induction samples arbitrary: divtrack)
  case Nil
  then show ?case by (simp split: option.splits)
next
  case (Cons s samples)
  obtain S where S: "accumulate_mutations t s = Inr S"
    using accumulate_mutations_ok [of t s] by blast
  then have key: "sample_key t s = sorted_list_of_set S" by (simp add: sample_key_def)
  from count_sample_spec [OF Cons.prems, of S] obtain d1 where
    d1: "count_sample divtrack S = Inr d1" "distinct (map fst d1)"
    "map_of d1 = (map_of divtrack)(sorted_list_of_set S \<mapsto>
                 (case map_of divtrack (sorted_list_of_set S) of None \<Rightarrow> 1 | Some c \<Rightarrow> c + 1))"
    "sum_list (map snd d1) = sum_list (map snd divtrack) + 1"
    by blast
  from Cons.IH [OF d1(2)] obtain d where
    d: "count_loop t samples d1 = Inr d" "distinct (map fst d)"
    "sum_list (map snd d) = sum_list (map snd d1) + int (length samples)"
    "\<forall>k. map_of d k =
                 (let c = int (length (filter (\<lambda>s. sample_key t s = k) samples))
                  in case map_of d1 k of
                       None \<Rightarrow> if c = 0 then None else Some c
                     | Some c0 \<Rightarrow> Some (c0 + c))"
    by blast
  have "count_loop t (s # samples) divtrack = Inr d" using S d1(1) d(1) by simp
  moreover have "sum_list (map snd d) = sum_list (map snd divtrack) + int (length (s # samples))"
    using d(3) d1(4) by simp
  moreover have "map_of d k =
                 (let c = int (length (filter (\<lambda>s. sample_key t s = k) (s # samples)))
                  in case map_of divtrack k of
                       None \<Rightarrow> if c = 0 then None else Some c
                     | Some c0 \<Rightarrow> Some (c0 + c))" for k
    using d(4) [rule_format, of k] d1(3) key
    by (auto simp: Let_def split: option.splits)
  ultimately show ?case using d(2) by blast
qed

lemma count_haplotypes_spec:
  "\<exists>d. count_haplotypes t = Inr d \<and> distinct (map fst d)
       \<and> sum_list (map snd d) = int (length (get_leaves_ids t))
       \<and> (\<forall>k. map_of d k =
             (let c = int (length (filter (\<lambda>s. sample_key t s = k) (get_leaves_ids t)))
              in if c = 0 then None else Some c))"
  using count_loop_spec [of "[]" t "get_leaves_ids t"]
  by (simp add: count_haplotypes_def)

text \<open>
  Claim C10. \<^verbatim>\<open>count_haplotypes\<close> returns a dictionary for every tree. Its keys
  are distinct; the value of a key is the number of leaf identifiers that are filed
  under it, and it is at least 1; the values add up to the number of leaf identifiers.
\<close>

theorem count_haplotypes_counts:
  "\<exists>d. count_haplotypes t = Inr d \<and> distinct (map fst d)
       \<and> (\<forall>(k, c)\<in>set d. 1 \<le> c
            \<and> c = int (length (filter (\<lambda>s. sample_key t s = k) (get_leaves_ids t))))
       \<and> sum_list (map snd d) = int (length (get_leaves_ids t))"
proof -
  from count_haplotypes_spec [of t] obtain d where
    d: "count_haplotypes t = Inr d" "distinct (map fst d)"
    "sum_list (map snd d) = int (length (get_leaves_ids t))"
    and m: "\<And>k. map_of d k =
             (let c = int (length (filter (\<lambda>s. sample_key t s = k) (get_leaves_ids t)))
              in if c = 0 then None else Some c)"
    by blast
  have "1 \<le> c \<and> c = int (length (filter (\<lambda>s. sample_key t s = k) (get_leaves_ids t)))"
    if "(k, c) \<in> set d" for k c
  proof -
    from that d(2) have "map_of d k = Some c" by simp
    with m [of k] show ?thesis
      by (cases "filter (\<lambda>s. sample_key t s = k) (get_leaves_ids t)")
         (auto simp: Let_def split: if_splits)
  qed
  with d show ?thesis by blast
qed

theorem count_haplotypes_counts_witness:
  "count_haplotypes ex_two_leaves = Inr [([''A123T''], 1), ([], 1)]
   \<and> sum_list (map snd (projr (count_haplotypes ex_two_leaves))) = 2
   \<and> length (get_leaves_ids ex_two_leaves) = 2"
proof -
  have e: "count_haplotypes ex_two_leaves = Inr [([''A123T''], 1), ([], 1)]" by code_simp
  have l: "length (get_leaves_ids ex_two_leaves) = 2" by code_simp
  from count_haplotypes_counts [of ex_two_leaves] e l show ?thesis by auto
qed

lemma sample_key_eq:
  assumes "accumulate_mutations t a = Inr A"
  shows "(sample_key t s = sorted_list_of_set A) = (accumulate_mutations t s = Inr A)"
proof -
  from accumulate_mutations_ok [of t a] assms have fA: "finite A" by auto
  from accumulate_mutations_ok [of t s] obtain S where
    S: "accumulate_mutations t s = Inr S" "finite S" by blast
  have "(sorted_list_of_set S = sorted_list_of_set A) = (S = A)"
    using fA S(2) by (auto dest: sorted_list_of_set_inject)
  with S(1) show ?thesis by (simp add: sample_key_def)
qed

text \<open>
  Claim C8. The divergence set is a set: it keeps no trace of the order in which its
  elements were inserted, and its key is the sorted list of its elements, the same as
  the sort of any enumeration of them. So two leaves whose divergence sets have the same
  elements get the same key, and the entry of that key counts every leaf with this
  divergence set, both of them included.
\<close>

theorem count_haplotypes_order_independent:
  assumes "a \<in> set (get_leaves_ids t)" and "b \<in> set (get_leaves_ids t)"
      and "accumulate_mutations t a = Inr A" and "accumulate_mutations t b = Inr B"
      and "\<forall>x. (x \<in> A) = (x \<in> B)"
  shows "\<exists>d c. count_haplotypes t = Inr d
           \<and> sorted_list_of_set A = sorted_list_of_set B
           \<and> map_of d (sorted_list_of_set A) = Some c
           \<and> c = int (length (filter (\<lambda>s. accumulate_mutations t s = Inr A) (get_leaves_ids t)))
           \<and> (a \<noteq> b \<longrightarrow> 2 \<le> c)
           \<and> (\<forall>xs. distinct xs \<and> set xs = A \<longrightarrow> sort xs = sorted_list_of_set A)"
proof -
  from assms(5) have AB: "A = B" by auto
  define F where "F = filter (\<lambda>s. accumulate_mutations t s = Inr A) (get_leaves_ids t)"
  from count_haplotypes_spec [of t] obtain d where
    d: "count_haplotypes t = Inr d"
    and m: "\<And>k. map_of d k =
             (let c = int (length (filter (\<lambda>s. sample_key t s = k) (get_leaves_ids t)))
              in if c = 0 then None else Some c)"
    by blast
  have flt: "filter (\<lambda>s. sample_key t s = sorted_list_of_set A) (get_leaves_ids t) = F"
    by (simp add: F_def sample_key_eq [OF assms(3)])
  have aF: "a \<in> set F" and bF: "b \<in> set F"
    using assms(1-4) AB by (simp_all add: F_def)
  then have "F \<noteq> []" by auto
  with m [of "sorted_list_of_set A"] flt
  have look: "map_of d (sorted_list_of_set A) = Some (int (length F))" by (simp add: Let_def)
  have two: "2 \<le> int (length F)" if "a \<noteq> b"
  proof -
    from aF bF that have "card {a, b} \<le> card (set F)" by (intro card_mono) auto
    also have "\<dots> \<le> length F" by (rule card_length)
    finally show ?thesis using that by simp
  qed
  have srt: "sort xs = sorted_list_of_set A" if "distinct xs \<and> set xs = A" for xs
    using that by (auto simp: sorted_list_of_set_sort_remdups distinct_remdups_id)
  from d AB look two srt show ?thesis unfolding F_def by blast
qed

theorem count_haplotypes_order_independent_witness:
  "accumulate_mutations ex_swapped ''a'' = Inr {''A123T'', ''C5G''}
   \<and> accumulate_mutations ex_swapped ''b'' = Inr {''C5G'', ''A123T''}
   \<and> map_of (projr (count_haplotypes ex_swapped)) [''A123T'', ''C5G''] = Some 2"
proof -
  have l: "''a'' \<in> set (get_leaves_ids ex_swapped)" "''b'' \<in> set (get_leaves_ids ex_swapped)"
    by code_simp+
  have a: "accumulate_mutations ex_swapped ''a'' = Inr {''A123T'', ''C5G''}" by code_simp
  have b: "accumulate_mutations ex_swapped ''b'' = Inr {''C5G'', ''A123T''}" by code_simp
  have e: "\<forall>x. (x \<in> {''A123T'', ''C5G''}) = (x \<in> {''C5G'', ''A123T''})" by auto
  have k: "sorted_list_of_set {''A123T'', ''C5G''} = [''A123T'', ''C5G'']" by code_simp
  have ne: "''a'' \<noteq> ''b''" by simp
  from count_haplotypes_order_independent [OF l a b e] obtain d c where
    d: "count_haplotypes ex_swapped = Inr d" "map_of d [''A123T'', ''C5G''] = Some c"
    "c = int (length (filter (\<lambda>s. accumulate_mutations ex_swapped s = Inr {''A123T'', ''C5G''})
           (get_leaves_ids ex_swapped)))"
    unfolding k by blast
  have "get_leaves_ids ex_swapped = [''a'', ''b'']" by code_simp
  with d(3) a b have "c = 2" by (simp add: insert_commute)
  with d a b show ?thesis by simp
qed

section \<open>Nucleotide diversity\<close>

lemma count_differences_card:
  assumes "finite A" "finite B"
  shows "count_differences (sorted_list_of_set A) (sorted_list_of_set B)
           = int (card ((A - B) \<union> (B - A)))"
proof -
  have inter: "length (filter (\<lambda>e. e \<in> B) (sorted_list_of_set A)) = card (A \<inter> B)"
    using assms(1) by (simp add: distinct_length_filter Int_commute)
  have le1: "card (A \<inter> B) \<le> card A" using assms(1) by (intro card_mono) auto
  have le2: "card (A \<inter> B) \<le> card B" using assms(2) by (intro card_mono) auto
  have d1: "card (A - B) = card A - card (A \<inter> B)"
    using assms by (intro card_Diff_subset_Int) auto
  have d2: "card (B - A) = card B - card (A \<inter> B)"
    using assms card_Diff_subset_Int [of B A] by (simp add: Int_commute)
  have un: "card ((A - B) \<union> (B - A)) = card (A - B) + card (B - A)"
    using assms by (intro card_Un_disjoint) auto
  show ?thesis
    using inter le1 le2 d1 d2 un assms
    by (simp add: count_differences_def Let_def)
qed

text \<open>
  Claim C9. Let the tree have exactly two leaves, and let their divergence sets differ in
  exactly one element (the distance that \<^verbatim>\<open>count_differences\<close> measures is the
  number of elements in one set and not in the other). Then
  \<^verbatim>\<open>compute_nucleotide_diversity\<close> returns 1: each of the two ordered pairs adds
  1 * 1/2 * 1/2, and the sum 1/2 is multiplied by 2 / (2 - 1). All these numbers are
  binary fractions, so the floating-point computation of Python is exact here as well.
\<close>

theorem diversity_two_leaves:
  assumes "get_leaves_ids t = [a, b]"
      and "accumulate_mutations t a = Inr A" and "accumulate_mutations t b = Inr B"
      and "card ((A - B) \<union> (B - A)) = 1"
  shows "compute_nucleotide_diversity t = Inr 1"
proof -
  from accumulate_mutations_ok [of t a] assms(2) have fA: "finite A" by auto
  from accumulate_mutations_ok [of t b] assms(3) have fB: "finite B" by auto
  define kA where "kA = sorted_list_of_set A"
  define kB where "kB = sorted_list_of_set B"
  from assms(4) have "A \<noteq> B" by auto
  then have ne: "kA \<noteq> kB"
    using fA fB by (auto simp: kA_def kB_def dest: sorted_list_of_set_inject)
  have dt: "count_haplotypes t = Inr [(kA, 1), (kB, 1)]"
    using assms(1-3) ne
    by (simp add: count_haplotypes_def count_sample_def Let_def dict_get_def kA_def kB_def)
  have cd1: "count_differences kA kB = 1"
    using count_differences_card [OF fA fB] assms(4) by (simp add: kA_def kB_def)
  have "(B - A) \<union> (A - B) = (A - B) \<union> (B - A)" by auto
  then have cd2: "count_differences kB kA = 1"
    using count_differences_card [OF fB fA] assms(4) by (simp add: kA_def kB_def)
  show ?thesis
    using ne ne [symmetric] cd1 cd2
    by (simp add: compute_nucleotide_diversity_def dt dict_get_def truediv_def Let_def)
qed

theorem diversity_two_leaves_witness:
  "get_leaves_ids ex_two_leaves = [''a'', ''b'']
   \<and> compute_nucleotide_diversity ex_two_leaves = Inr 1"
proof -
  have l: "get_leaves_ids ex_two_leaves = [''a'', ''b'']" by code_simp
  have a: "accumulate_mutations ex_two_leaves ''a'' = Inr {''A123T''}" by code_simp
  have b: "accumulate_mutations ex_two_leaves ''b'' = Inr {}" by code_simp
  have c: "card (({''A123T''} - {}) \<union> ({} - {''A123T''})) = 1" by simp
  from diversity_two_leaves [OF l a b c] l show ?thesis by simp
qed

text \<open>
  Claim C2, as stated, fails for the empty tree: there is no leaf, the dictionary is
  empty, the total is 0, the divisor is 0 - 1, and the call returns zero.
\<close>

theorem diversity_empty_tree_returns:
  "length (get_leaves_ids ex_empty) = 0 \<and> compute_nucleotide_diversity ex_empty = Inr 0"
  by code_simp

text \<open>
  Claim C2, amended. On a tree with exactly one leaf the total is 1 and the last division
  has the divisor 0: \<^verbatim>\<open>compute_nucleotide_diversity\<close> raises ZeroDivisionError and
  returns no number. On a tree without leaves it returns zero.
\<close>

theorem diversity_degenerate:
  "(length (get_leaves_ids t) = 1 \<longrightarrow> compute_nucleotide_diversity t = Inl ZeroDivisionError)
   \<and> (get_leaves_ids t = [] \<longrightarrow> compute_nucleotide_diversity t = Inr 0)"
proof (intro conjI impI)
  assume "length (get_leaves_ids t) = 1"
  then obtain a where l: "get_leaves_ids t = [a]"
    by (cases "get_leaves_ids t") auto
  obtain A where A: "accumulate_mutations t a = Inr A"
    using accumulate_mutations_ok [of t a] by blast
  have dt: "count_haplotypes t = Inr [(sorted_list_of_set A, 1)]"
    using l A by (simp add: count_haplotypes_def count_sample_def Let_def dict_get_def)
  show "compute_nucleotide_diversity t = Inl ZeroDivisionError"
    by (simp add: compute_nucleotide_diversity_def dt dict_get_def truediv_def Let_def)
next
  assume "get_leaves_ids t = []"
  then have dt: "count_haplotypes t = Inr []" by (simp add: count_haplotypes_def)
  show "compute_nucleotide_diversity t = Inr 0"
    by (simp add: compute_nucleotide_diversity_def dt truediv_def Let_def)
qed

theorem diversity_degenerate_witness:
  "length (get_leaves_ids ex_single_leaf) = 1
   \<and> compute_nucleotide_diversity ex_single_leaf = Inl ZeroDivisionError
   \<and> get_leaves_ids ex_empty = []
   \<and> compute_nucleotide_diversity ex_empty = Inr 0"
proof -
  have l1: "length (get_leaves_ids ex_single_leaf) = 1" by code_simp
  have l0: "get_leaves_ids ex_empty = []" by code_simp
  from diversity_degenerate [of ex_single_leaf] diversity_degenerate [of ex_empty] l1 l0
  show ?thesis by simp
qed

section \<open>Cancellation of reciprocal mutations\<close>

lemma oppo_of_involution:
  assumes "2 \<le> length s" "oppo_of s = Inr opp"
  shows "oppo_of opp = Inr s \<and> length opp = length s"
proof -
  from assms(1) obtain x xs where s: "s = x # xs" and xs: "xs \<noteq> []"
    by (cases s) (auto simp: Suc_le_eq)
  from xs have sn: "butlast xs @ [last xs] = xs" by simp
  from assms(2) s xs have opp: "opp = last xs # butlast xs @ [x]"
    by (simp add: oppo_of_def)
  have "oppo_of opp = Inr (x # butlast xs @ [last xs])"
    by (simp add: oppo_of_def opp)
  moreover have "length opp = length s" using xs by (simp add: opp s)
  ultimately show ?thesis using sn s by simp
qed

lemma oppo_of_middle: "oppo_of s = Inr opp \<Longrightarrow> butlast (tl opp) = butlast (tl s)"
  by (auto simp: oppo_of_def split: if_splits)

lemma accumulate_node_inv:
  assumes "accumulate_node ms S = Inr S'"
      and "\<forall>s\<in>set ms. 2 \<le> length s" and "\<forall>s\<in>S. 2 \<le> length s"
      and "\<forall>s\<in>S. \<forall>opp. oppo_of s = Inr opp \<and> opp \<noteq> s \<longrightarrow> opp \<notin> S"
  shows "(\<forall>s\<in>S'. 2 \<le> length s)
         \<and> (\<forall>s\<in>S'. \<forall>opp. oppo_of s = Inr opp \<and> opp \<noteq> s \<longrightarrow> opp \<notin> S')"
  using assms
proof (induction ms arbitrary: S)
  case Nil
  then show ?case by simp
next
  case (Cons m ms)
  from Cons.prems(2) have lm: "2 \<le> length m" by simp
  then have "m \<noteq> []" by auto
  then obtain om where om: "oppo_of m = Inr om" by (simp add: oppo_of_def)
  show ?case
  proof (cases "om \<in> S")
    case True
    with Cons.prems(1) om have run: "accumulate_node ms (S - {om}) = Inr S'" by simp
    have ms: "\<forall>s\<in>set ms. 2 \<le> length s" using Cons.prems(2) by simp
    have len: "\<forall>s\<in>S - {om}. 2 \<le> length s" using Cons.prems(3) by simp
    have inv: "\<forall>s\<in>S - {om}. \<forall>opp. oppo_of s = Inr opp \<and> opp \<noteq> s \<longrightarrow> opp \<notin> S - {om}"
      using Cons.prems(4) by blast
    show ?thesis by (rule Cons.IH [OF run ms len inv])
  next
    case False
    with Cons.prems(1) om have run: "accumulate_node ms (insert m S) = Inr S'" by simp
    have len: "\<forall>s\<in>insert m S. 2 \<le> length s" using lm Cons.prems(3) by simp
    have inv: "\<forall>s\<in>insert m S. \<forall>opp. oppo_of s = Inr opp \<and> opp \<noteq> s \<longrightarrow> opp \<notin> insert m S"
    proof (intro ballI allI impI)
      fix s opp
      assume s: "s \<in> insert m S" and o: "oppo_of s = Inr opp \<and> opp \<noteq> s"
      show "opp \<notin> insert m S"
      proof (cases "s = m")
        case True
        with o om have "opp = om" by simp
        with False o True show ?thesis by auto
      next
        case sm: False
        with s have sS: "s \<in> S" by simp
        with Cons.prems(4) o have "opp \<notin> S" by blast
        moreover have "opp \<noteq> m"
        proof
          assume "opp = m"
          from sS Cons.prems(3) have "2 \<le> length s" by simp
          from oppo_of_involution [OF this] o have "oppo_of opp = Inr s" by simp
          with \<open>opp = m\<close> om have "om = s" by simp
          with sS False show False by simp
        qed
        ultimately show ?thesis by simp
      qed
    qed
    have ms: "\<forall>s\<in>set ms. 2 \<le> length s" using Cons.prems(2) by simp
    show ?thesis by (rule Cons.IH [OF run ms len inv])
  qed
qed

lemma accumulate_node_append:
  "accumulate_node (xs @ ys) S =
     (case accumulate_node xs S of Inl e \<Rightarrow> Inl e | Inr S' \<Rightarrow> accumulate_node ys S')"
  by (induction xs arbitrary: S) (simp_all split: sum.splits)

lemma accumulate_path_concat: "accumulate_path path S = accumulate_node (concat path) S"
  by (induction path arbitrary: S) (simp_all add: accumulate_node_append split: sum.splits)

lemma accumulate_node_filter:
  assumes "accumulate_node ms S = Inr S'"
      and "\<And>s opp. oppo_of s = Inr opp \<Longrightarrow> P opp = P s"
  shows "accumulate_node (filter P ms) {s \<in> S. P s} = Inr {s \<in> S'. P s}"
  using assms(1)
proof (induction ms arbitrary: S)
  case Nil
  then show ?case by simp
next
  case (Cons m ms)
  from Cons.prems obtain om where om: "oppo_of m = Inr om"
    by (cases "oppo_of m") auto
  from assms(2) [OF om] have P: "P om = P m" .
  define Q where "Q = {s \<in> S. P s}"
  define R where "R = {s \<in> S'. P s}"
  show ?case
  proof (cases "om \<in> S")
    case True
    define T where "T = {s \<in> S - {om}. P s}"
    from True Cons.prems om have run: "accumulate_node ms (S - {om}) = Inr S'" by simp
    from Cons.IH [OF run] have ih: "accumulate_node (filter P ms) T = Inr R"
      by (simp only: T_def R_def)
    have "accumulate_node (filter P (m # ms)) Q = accumulate_node (filter P ms) T"
    proof (cases "P m")
      case pm: True
      with P True have "om \<in> Q" by (simp add: Q_def)
      moreover have "Q - {om} = T" by (auto simp: Q_def T_def)
      ultimately show ?thesis using pm om by simp
    next
      case pm: False
      with P have "Q = T" by (auto simp: Q_def T_def)
      with pm show ?thesis by simp
    qed
    with ih show ?thesis by (simp only: Q_def R_def)
  next
    case False
    define T where "T = {s \<in> insert m S. P s}"
    from False Cons.prems om have run: "accumulate_node ms (insert m S) = Inr S'" by simp
    from Cons.IH [OF run] have ih: "accumulate_node (filter P ms) T = Inr R"
      by (simp only: T_def R_def)
    have "accumulate_node (filter P (m # ms)) Q = accumulate_node (filter P ms) T"
    proof (cases "P m")
      case pm: True
      from False have "om \<notin> Q" by (simp add: Q_def)
      moreover from pm have "insert m Q = T" by (auto simp: Q_def T_def)
      ultimately show ?thesis using pm om by simp
    next
      case pm: False
      then have "Q = T" by (auto simp: Q_def T_def)
      with pm show ?thesis by simp
    qed
    with ih show ?thesis by (simp only: Q_def R_def)
  qed
qed

lemma accumulate_path_reciprocal:
  assumes "accumulate_path path {} = Inr S" and "\<forall>ms\<in>set path. \<forall>s\<in>set ms. 2 \<le> length s"
  shows "(\<forall>s\<in>S. \<forall>opp. oppo_of s = Inr opp \<and> opp \<noteq> s \<longrightarrow> opp \<notin> S)
         \<and> (filter (\<lambda>s. butlast (tl s) = ''123'') (concat path) = [''A123T'', ''T123A'']
              \<longrightarrow> (\<forall>s\<in>S. butlast (tl s) \<noteq> ''123''))"
proof -
  from assms(1) have run: "accumulate_node (concat path) {} = Inr S"
    by (simp add: accumulate_path_concat)
  from assms(2) have len: "\<forall>s\<in>set (concat path). 2 \<le> length s" by auto
  from accumulate_node_inv [OF run len]
  have inv: "\<forall>s\<in>S. \<forall>opp. oppo_of s = Inr opp \<and> opp \<noteq> s \<longrightarrow> opp \<notin> S" by simp
  have "\<forall>s\<in>S. butlast (tl s) \<noteq> ''123''"
    if f: "filter (\<lambda>s. butlast (tl s) = ''123'') (concat path) = [''A123T'', ''T123A'']"
  proof -
    from accumulate_node_filter [OF run, of "\<lambda>s. butlast (tl s) = ''123''"]
    have "accumulate_node (filter (\<lambda>s. butlast (tl s) = ''123'') (concat path)) {}
            = Inr {s \<in> S. butlast (tl s) = ''123''}"
      by (simp add: oppo_of_middle)
    then have "{s \<in> S. butlast (tl s) = ''123''} = {}"
      by (simp add: f oppo_of_def)
    then show ?thesis by blast
  qed
  with inv show ?thesis by blast
qed

text \<open>
  Claim C5. \<^verbatim>\<open>accumulate_mutations\<close> returns a set for every tree and sample, and
  no two elements of the set are reciprocal to each other: when the reciprocal of an
  element is another string, that string is not in the set. In particular, when the
  mutations at position 123 on the path are A123T and later T123A, whatever the path
  carries at other positions, the set has no entry at position 123 (the position of a
  string is what stands between its first and its last symbol).
\<close>

theorem accumulate_mutations_reciprocal:
  "\<exists>S. accumulate_mutations t sample = Inr S
       \<and> (\<forall>s\<in>S. \<forall>opp. oppo_of s = Inr opp \<and> opp \<noteq> s \<longrightarrow> opp \<notin> S)
       \<and> (filter (\<lambda>s. butlast (tl s) = ''123'')
             (concat (map (\<lambda>n. map get_string (mutations n)) (rev (rsearch t sample True))))
            = [''A123T'', ''T123A'']
          \<longrightarrow> (\<forall>s\<in>S. butlast (tl s) \<noteq> ''123''))"
proof -
  define path where "path = map (\<lambda>n. map get_string (mutations n)) (rev (rsearch t sample True))"
  obtain S where S: "accumulate_mutations t sample = Inr S"
    using accumulate_mutations_ok [of t sample] by blast
  then have run: "accumulate_path path {} = Inr S"
    by (simp add: accumulate_mutations_def Let_def path_def)
  have "2 \<le> length (get_string m)" for m
    using get_string_length [of m] by simp
  then have len: "\<forall>ms\<in>set path. \<forall>s\<in>set ms. 2 \<le> length s"
    by (auto simp: path_def)
  from accumulate_path_reciprocal [OF run len] S show ?thesis
    unfolding path_def by blast
qed

theorem accumulate_mutations_reciprocal_witness:
  "accumulate_mutations ex_cancel ''s'' = Inr {}
   \<and> accumulate_mutations ex_swapped ''a'' = Inr {''A123T'', ''C5G''}
   \<and> oppo_of ''A123T'' = Inr ''T123A''
   \<and> ''T123A'' \<notin> {''A123T'', ''C5G''}"
proof -
  have f: "filter (\<lambda>s. butlast (tl s) = ''123'')
             (concat (map (\<lambda>n. map get_string (mutations n))
                (rev (rsearch ex_cancel ''s'' True))))
            = [''A123T'', ''T123A'']"
    by code_simp
  have c: "accumulate_mutations ex_cancel ''s'' = Inr {}" by code_simp
  have a: "accumulate_mutations ex_swapped ''a'' = Inr {''A123T'', ''C5G''}" by code_simp
  have o: "oppo_of ''A123T'' = Inr ''T123A''" by code_simp
  from accumulate_mutations_reciprocal [of ex_cancel "''s''"]
    accumulate_mutations_reciprocal [of ex_swapped "''a''"] f c a o
  show ?thesis by auto
qed

end
